theory Spec2Isabelle
  imports Complex_Main
begin

section \<open>JavaScript string primitives used by the key functions\<close>

text \<open>
  A JavaScript string is a sequence of UTF-16 code units. Keys, bucket names and content
  types that are only compared, searched and cut are modelled as \<^typ>\<open>string\<close>, one
  \<^typ>\<open>char\<close> per code unit, which covers the code units U+0000 to U+00FF. The string
  primitives below work on any list, so they serve both for these strings and for the
  lists of code units on which \<open>isSupportedImage\<close> works.

  \<open>s.lastIndexOf(c)\<close> searches backwards from the last position and answers the
  first index where \<open>c\<close> stands, or \<open>-1\<close> when there is none.
  \<open>lastIndexOf_from s c k\<close> is the search over the positions below \<open>k\<close>.
\<close>

fun lastIndexOf_from :: "'a list \<Rightarrow> 'a \<Rightarrow> nat \<Rightarrow> int" where
  "lastIndexOf_from s c 0 = - 1"
| "lastIndexOf_from s c (Suc k) =
     (if s ! k = c then int k else lastIndexOf_from s c k)"

definition lastIndexOf :: "'a list \<Rightarrow> 'a \<Rightarrow> int" where
  "lastIndexOf s c = lastIndexOf_from s c (length s)"

text \<open>
  \<open>s.substring(start, end)\<close> clamps both indices into \<open>0 .. length s\<close>, swaps them
  when the first is the larger, and copies the code units between them. With one
  argument the end is the length of the string.
\<close>

definition substring :: "'a list \<Rightarrow> int \<Rightarrow> int \<Rightarrow> 'a list" where
  "substring s start end' =
     (let n = int (length s);
          a = max 0 (min start n);
          b = max 0 (min end' n);
          lo = min a b;
          hi = max a b
      in take (nat (hi - lo)) (drop (nat lo) s))"

definition substring_from :: "'a list \<Rightarrow> int \<Rightarrow> 'a list" where
  "substring_from s start = substring s start (int (length s))"

text \<open>
  \<open>isSupportedImage\<close> is the one function that changes the case of a key, and
  \<open>toLowerCase\<close> does not keep the length of every string. There a key is the list
  of its UTF-16 code units, each an integer; \<open>code_units\<close> reads a string of
  the 8-bit range as such a list.

  \<open>toLowerCase\<close> maps every character by the lower-case mapping of the Unicode
  standard, whatever the locale. The model has the mapping in full for U+0000 to
  U+00FF: 32 is added to the letters A to Z and to the capitals U+00C0 to U+00DE (the
  multiplication sign U+00D7 apart). Beyond U+00FF it has the three entries that matter
  for a comparison with an ASCII extension: the capital I with a dot above, U+0130, is
  the one character that lower-cases to two code units, \<open>i\<close> and the combining dot
  U+0307; the Kelvin sign U+212A lower-cases to \<open>k\<close> and the Angstrom sign U+212B to
  U+00E5. Every other cased letter lower-cases to one code unit outside ASCII (a
  surrogate pair to a surrogate pair); the model leaves those code units in place,
  which changes neither the length of the lower-cased key nor whether the part that is
  cut off equals an extension of the allow-list.
\<close>

definition code_units :: "string \<Rightarrow> int list" where
  "code_units s = map of_char s"

definition DOT :: int where
  "DOT = of_char CHR ''.''"

definition toLowerCase_unit :: "int \<Rightarrow> int list" where
  "toLowerCase_unit u =
     (if (65 \<le> u \<and> u \<le> 90) \<or> (192 \<le> u \<and> u \<le> 222 \<and> u \<noteq> 215) then [u + 32]
      else if u = 304 then [105, 775]
      else if u = 8490 then [107]
      else if u = 8491 then [229]
      else [u])"

definition toLowerCase :: "int list \<Rightarrow> int list" where
  "toLowerCase s = concat (map toLowerCase_unit s)"

section \<open>The transform policy: supported keys and derived keys\<close>

definition SUPPORTED_FORMATS :: "int list list" where
  "SUPPORTED_FORMATS =
     map code_units [''.jpg'', ''.jpeg'', ''.png'', ''.webp'', ''.tiff'', ''.bmp'']"

definition isSupportedImage :: "int list \<Rightarrow> bool" where
  "isSupportedImage key =
     (let extension = substring_from (toLowerCase key) (lastIndexOf key DOT)
      in extension \<in> set SUPPORTED_FORMATS)"

definition generateOptimizedKey :: "string \<Rightarrow> string \<Rightarrow> string" where
  "generateOptimizedKey originalKey contentType =
     (let lastDotIndex = lastIndexOf originalKey CHR ''.'';
          baseName = substring originalKey 0 lastDotIndex
      in if contentType = ''image/webp'' then baseName @ ''.webp''
         else if contentType = ''image/png'' then baseName @ ''.png''
         else originalKey)"

text \<open>
  The base name of a key, as \<open>generateOptimizedKey\<close> computes it: what stands before
  the last dot.
\<close>

definition baseName :: "string \<Rightarrow> string" where
  "baseName key = substring key 0 (lastIndexOf key CHR ''.'')"

section \<open>The transform policy: re-encoding\<close>

text \<open>
  A thrown JavaScript value is an \<open>error\<close>; a computation that may throw returns
  \<open>error + 'a\<close>, with \<open>Inl\<close> for the throw. A \<open>Buffer\<close> is its list of bytes.
\<close>

datatype error = Error string

type_synonym buffer = "nat list"

record OptimizedImageResult =
  buffer :: buffer
  contentType :: string
  size' :: nat

text \<open>
  The image library \<open>sharp\<close> is outside the repository. The code uses two of its
  operations: \<open>metadata()\<close>, which decodes the header of the input, and the pipeline
  \<open>resize(...).png(...).toBuffer()\<close> or \<open>resize(...).webp(...).toBuffer()\<close>, which
  re-encodes it. Both are parameters of the model; every field of the metadata may be
  undefined.
\<close>

record image_metadata =
  format :: "string option"
  width :: "nat option"
  height :: "nat option"
  hasAlpha :: "bool option"

record resize_options =
  resize_width :: "nat option"
  resize_height :: "nat option"
  fit :: string
  withoutEnlargement :: bool

datatype output_options =
    Png nat nat
  | Webp nat nat

record sharp =
  metadata :: "buffer \<Rightarrow> error + image_metadata"
  toBuffer :: "buffer \<Rightarrow> resize_options \<Rightarrow> output_options \<Rightarrow> error + buffer"

definition MAX_WIDTH :: nat where
  "MAX_WIDTH = 800"

definition QUALITY :: nat where
  "QUALITY = 85"

definition resize_call :: resize_options where
  "resize_call =
     \<lparr>resize_width = Some MAX_WIDTH, resize_height = None,
      fit = ''inside'', withoutEnlargement = True\<rparr>"

definition optimizeImage :: "sharp \<Rightarrow> buffer \<Rightarrow> string \<Rightarrow> error + OptimizedImageResult" where
  "optimizeImage lib input originalKey =
     (case metadata lib input of
        Inl e \<Rightarrow> Inl e
      | Inr md \<Rightarrow>
          if format md = Some ''png'' \<and> hasAlpha md = Some True
          then (case toBuffer lib input resize_call (Png QUALITY 9) of
                  Inl e \<Rightarrow> Inl e
                | Inr outputBuffer \<Rightarrow>
                    Inr \<lparr>buffer = outputBuffer, contentType = ''image/png'',
                         size' = length outputBuffer\<rparr>)
          else (case toBuffer lib input resize_call (Webp QUALITY 6) of
                  Inl e \<Rightarrow> Inl e
                | Inr outputBuffer \<Rightarrow>
                    Inr \<lparr>buffer = outputBuffer, contentType = ''image/webp'',
                         size' = length outputBuffer\<rparr>))"

section \<open>The storage service and the environment\<close>

text \<open>
  The storage client has one entry point, \<open>s3Client.send(command)\<close>. A command is
  one of the four the code builds; the output is an object whose fields may be
  undefined. The body of a fetched object is a stream: reading it to its end gives
  the bytes or an error. The user metadata, the size strings and the time stamp that a
  put request carries are computed without a throw and are left out of the command.

  The service is a response function of the command. The environment holds it together
  with the bucket names read from the process environment, the image library and the
  built-in \<open>decodeURIComponent\<close>.
\<close>

type_synonym readable = "error + buffer"

datatype s3_command =
    GetObjectCommand string string
  | PutObjectCommand string string buffer string
  | CopyObjectCommand string string
  | ListObjectsV2Command string string "string option"

record s3_output =
  Body :: "readable option"
  Contents :: "string option list option"
  NextContinuationToken :: "string option"

record env =
  SOURCE_BUCKET :: string
  OPTIMIZED_BUCKET :: string
  send :: "s3_command \<Rightarrow> error + s3_output"
  image_lib :: sharp
  decodeURIComponent :: "string \<Rightarrow> error + string"

definition streamToBuffer :: "readable \<Rightarrow> error + buffer" where
  "streamToBuffer stream = stream"

section \<open>The event handler\<close>

record S3EventRecord =
  bucket_name :: string
  object_key :: string

definition replace_plus :: "string \<Rightarrow> string" where
  "replace_plus key = map (\<lambda>c. if c = CHR ''+'' then CHR '' '' else c) key"

text \<open>
  The callback that \<open>handler\<close> maps over the records is an async function. It runs
  up to its first \<open>await\<close> when it is called, and from one \<open>await\<close> to the next each
  time the awaited operation completes. A \<open>task\<close> is the point where the callback of
  one record stands: at one of its four awaits, with the values the rest of the
  callback needs, or settled (returned, or thrown).
\<close>

datatype task =
    Await_get string string
  | Await_stream string readable
  | Await_optimize string buffer
  | Await_put s3_command
  | Settled "error + unit"

definition start_task :: "env \<Rightarrow> S3EventRecord \<Rightarrow> task" where
  "start_task e r =
     (let sourceBucket = bucket_name r
      in case decodeURIComponent e (replace_plus (object_key r)) of
           Inl err \<Rightarrow> Settled (Inl err)
         | Inr sourceKey \<Rightarrow>
             if \<not> isSupportedImage (code_units sourceKey) then Settled (Inr ())
             else if sourceBucket = OPTIMIZED_BUCKET e then Settled (Inr ())
             else Await_get sourceBucket sourceKey)"

fun advance :: "env \<Rightarrow> task \<Rightarrow> task" where
  "advance e (Await_get sourceBucket sourceKey) =
     (case send e (GetObjectCommand sourceBucket sourceKey) of
        Inl err \<Rightarrow> Settled (Inl err)
      | Inr out \<Rightarrow>
          (case Body out of
             None \<Rightarrow> Settled (Inl (Error ''No body in S3 response''))
           | Some body \<Rightarrow> Await_stream sourceKey body))"
| "advance e (Await_stream sourceKey body) =
     (case streamToBuffer body of
        Inl err \<Rightarrow> Settled (Inl err)
      | Inr originalBuffer \<Rightarrow> Await_optimize sourceKey originalBuffer)"
| "advance e (Await_optimize sourceKey originalBuffer) =
     (case optimizeImage (image_lib e) originalBuffer sourceKey of
        Inl err \<Rightarrow> Settled (Inl err)
      | Inr optimized \<Rightarrow>
          (let optimizedKey = generateOptimizedKey sourceKey (contentType optimized)
           in Await_put (PutObjectCommand (OPTIMIZED_BUCKET e) optimizedKey
                           (buffer optimized) (contentType optimized))))"
| "advance e (Await_put putObjectCommand) =
     (case send e putObjectCommand of
        Inl err \<Rightarrow> Settled (Inl err)
      | Inr out \<Rightarrow> Settled (Inr ()))"
| "advance e (Settled r) = Settled r"

text \<open>The command a task hands to \<open>s3Client.send\<close> when it arrives at an await.\<close>

fun sent_on_entry :: "task \<Rightarrow> s3_command list" where
  "sent_on_entry (Await_get sourceBucket sourceKey) = [GetObjectCommand sourceBucket sourceKey]"
| "sent_on_entry (Await_put putObjectCommand) = [putObjectCommand]"
| "sent_on_entry t = []"

fun settled :: "task \<Rightarrow> bool" where
  "settled (Settled r) = True"
| "settled t = False"

fun rejection :: "task \<Rightarrow> error option" where
  "rejection (Settled (Inl err)) = Some err"
| "rejection t = None"

fun first_rejection :: "task list \<Rightarrow> error option" where
  "first_rejection [] = None"
| "first_rejection (t # ts) =
     (case rejection t of Some err \<Rightarrow> Some err | None \<Rightarrow> first_rejection ts)"

text \<open>
  The state of one invocation: the task of every record, the commands sent so far, each
  with the index of the record that sent it, and the outcome of the handler, which is
  \<open>None\<close> as long as \<open>await Promise.all(processingPromises)\<close> is pending.
  \<open>Promise.all\<close> rejects as soon as one of its promises rejects, with that error, and
  fulfils once all of them are fulfilled; a promise settles once.
\<close>

record invocation =
  tasks :: "task list"
  sent :: "(nat \<times> s3_command) list"
  outcome :: "(error + unit) option"

definition all_fulfilled :: "task list \<Rightarrow> bool" where
  "all_fulfilled ts = list_all (\<lambda>t. t = Settled (Inr ())) ts"

definition handler_start :: "env \<Rightarrow> S3EventRecord list \<Rightarrow> invocation" where
  "handler_start e Records =
     (let processingPromises = map (start_task e) Records
      in \<lparr>tasks = processingPromises,
          sent = concat (map (\<lambda>(i, t). map (Pair i) (sent_on_entry t))
                           (zip [0 ..< length processingPromises] processingPromises)),
          outcome = (case first_rejection processingPromises of
                       Some err \<Rightarrow> Some (Inl err)
                     | None \<Rightarrow> if all_fulfilled processingPromises then Some (Inr ()) else None)\<rparr>)"

text \<open>
  One step of the event loop: the operation that task \<open>i\<close> awaits completes and the
  task runs on to its next await or to its end.
\<close>

definition step :: "env \<Rightarrow> invocation \<Rightarrow> nat \<Rightarrow> invocation" where
  "step e s i =
     (if i < length (tasks s) \<and> \<not> settled (tasks s ! i)
      then (let t = advance e (tasks s ! i);
                ts = (tasks s)[i := t]
            in \<lparr>tasks = ts,
                sent = sent s @ map (Pair i) (sent_on_entry t),
                outcome = (case outcome s of
                             Some r \<Rightarrow> Some r
                           | None \<Rightarrow>
                               (case rejection t of
                                  Some err \<Rightarrow> Some (Inl err)
                                | None \<Rightarrow> if all_fulfilled ts then Some (Inr ()) else None))\<rparr>)
      else s)"

text \<open>
  The handler under a schedule: the order in which the awaited operations complete,
  each entry naming the record whose operation completes next.
\<close>

definition handler :: "env \<Rightarrow> S3EventRecord list \<Rightarrow> nat list \<Rightarrow> invocation" where
  "handler e Records schedule = foldl (step e) (handler_start e Records) schedule"

section \<open>The bulk driver\<close>

record ProcessingStats =
  total' :: nat
  processed :: nat
  skipped :: nat
  errors :: nat
  totalSizeBefore :: nat
  totalSizeAfter :: nat

text \<open>
  \<open>optimizedVersionExists\<close>: the loop over \<open>checkKeys\<close> with its inner
  \<open>try\<close>/\<open>catch\<close>, inside the outer \<open>try\<close>/\<open>catch\<close> that answers \<open>false\<close>.
\<close>

fun probe_checkKeys :: "env \<Rightarrow> string list \<Rightarrow> error + bool" where
  "probe_checkKeys e [] = Inr False"
| "probe_checkKeys e (key # keys) =
     (case send e (GetObjectCommand (OPTIMIZED_BUCKET e) key) of
        Inr out \<Rightarrow> Inr True
      | Inl err \<Rightarrow> probe_checkKeys e keys)"

definition optimizedVersionExists :: "env \<Rightarrow> string \<Rightarrow> error + bool" where
  "optimizedVersionExists e originalKey =
     (let webpKey = generateOptimizedKey originalKey ''image/webp'';
          pngKey = generateOptimizedKey originalKey ''image/png'';
          checkKeys = [webpKey, pngKey]
      in case probe_checkKeys e checkKeys of
           Inl err \<Rightarrow> Inr False
         | Inr found \<Rightarrow> Inr found)"

text \<open>
  The two processing functions mutate the statistics they are handed and catch what
  their body throws. The body returns the statistics as they stand at the throw or at
  the end; \<open>catch_count\<close> is the \<open>catch\<close> block.
\<close>

definition processImageDirect_body ::
  "env \<Rightarrow> string \<Rightarrow> ProcessingStats \<Rightarrow> (error + unit) \<times> ProcessingStats" where
  "processImageDirect_body e key stats =
     (case send e (GetObjectCommand (SOURCE_BUCKET e) key) of
        Inl err \<Rightarrow> (Inl err, stats)
      | Inr out \<Rightarrow>
          (case Body out of
             None \<Rightarrow> (Inl (Error ''No body in S3 response''), stats)
           | Some body \<Rightarrow>
               (case streamToBuffer body of
                  Inl err \<Rightarrow> (Inl err, stats)
                | Inr originalBuffer \<Rightarrow>
                    (let stats1 = stats\<lparr>totalSizeBefore :=
                                     totalSizeBefore stats + length originalBuffer\<rparr>
                     in case optimizeImage (image_lib e) originalBuffer key of
                          Inl err \<Rightarrow> (Inl err, stats1)
                        | Inr optimized \<Rightarrow>
                            (let stats2 = stats1\<lparr>totalSizeAfter :=
                                             totalSizeAfter stats1 + size' optimized\<rparr>;
                                 optimizedKey = generateOptimizedKey key (contentType optimized)
                             in case send e (PutObjectCommand (OPTIMIZED_BUCKET e) optimizedKey
                                               (buffer optimized) (contentType optimized)) of
                                  Inl err \<Rightarrow> (Inl err, stats2)
                                | Inr out' \<Rightarrow>
                                    (Inr (), stats2\<lparr>processed := processed stats2 + 1\<rparr>))))))"

definition processImageViaLambda_body ::
  "env \<Rightarrow> string \<Rightarrow> ProcessingStats \<Rightarrow> (error + unit) \<times> ProcessingStats" where
  "processImageViaLambda_body e key stats =
     (case send e (CopyObjectCommand (SOURCE_BUCKET e) key) of
        Inl err \<Rightarrow> (Inl err, stats)
      | Inr out \<Rightarrow> (Inr (), stats\<lparr>processed := processed stats + 1\<rparr>))"

definition catch_count ::
  "(error + unit) \<times> ProcessingStats \<Rightarrow> (error + unit) \<times> ProcessingStats" where
  "catch_count r =
     (case r of
        (Inl err, stats) \<Rightarrow> (Inr (), stats\<lparr>errors := errors stats + 1\<rparr>)
      | (Inr u, stats) \<Rightarrow> (Inr u, stats))"

definition processImageDirect ::
  "env \<Rightarrow> string \<Rightarrow> ProcessingStats \<Rightarrow> (error + unit) \<times> ProcessingStats" where
  "processImageDirect e key stats = catch_count (processImageDirect_body e key stats)"

definition processImageViaLambda ::
  "env \<Rightarrow> string \<Rightarrow> ProcessingStats \<Rightarrow> (error + unit) \<times> ProcessingStats" where
  "processImageViaLambda e key stats = catch_count (processImageViaLambda_body e key stats)"

text \<open>
  \<open>listAllImages\<close>: the \<open>do\<close> ... \<open>while (continuationToken)\<close> loop over the pages of
  the listing. An undefined or empty key is falsy and is filtered out, and so is an
  undefined or empty continuation token, which ends the loop. The loop runs as long as
  the service hands out tokens.
\<close>

definition page_images :: "s3_output \<Rightarrow> string list" where
  "page_images response =
     (case Contents response of
        None \<Rightarrow> []
      | Some objs \<Rightarrow>
          concat (map (\<lambda>Key. case Key of
                                None \<Rightarrow> []
                              | Some k \<Rightarrow> if k \<noteq> [] \<and> isSupportedImage (code_units k) then [k] else [])
                      objs))"

partial_function (option) listAllImages_loop ::
  "env \<Rightarrow> string \<Rightarrow> string option \<Rightarrow> string list \<Rightarrow> (error + string list) option" where
  "listAllImages_loop e prefix continuationToken images =
     (case send e (ListObjectsV2Command (SOURCE_BUCKET e) prefix continuationToken) of
        Inl err \<Rightarrow> Some (Inl err)
      | Inr response \<Rightarrow>
          (case NextContinuationToken response of
             None \<Rightarrow> Some (Inr (images @ page_images response))
           | Some token \<Rightarrow>
               if token = [] then Some (Inr (images @ page_images response))
               else listAllImages_loop e prefix (Some token) (images @ page_images response)))"

declare listAllImages_loop.simps [code]

definition listAllImages :: "env \<Rightarrow> string \<Rightarrow> (error + string list) option" where
  "listAllImages e prefix = listAllImages_loop e prefix None []"

text \<open>
  \<open>xs.slice(start, end)\<close>: a negative index counts from the end, both indices are
  clamped into \<open>0 .. length xs\<close>, and the result is empty when the end is not beyond
  the start.
\<close>

definition slice :: "'a list \<Rightarrow> int \<Rightarrow> int \<Rightarrow> 'a list" where
  "slice xs start end' =
     (let n = int (length xs);
          k = (if start < 0 then max (n + start) 0 else min start n);
          final = (if end' < 0 then max (n + end') 0 else min end' n)
      in take (nat (final - k)) (drop (nat k) xs))"

text \<open>
  The callback mapped over a batch. The workers of a batch run concurrently; they
  share the statistics only, each adds to the counters between two awaits, and the
  service answers a command the same way whenever it is sent, so the statistics after
  the batch are those of running the workers one after the other. \<open>run_batch\<close> does
  that, in the order of the batch; were a worker to throw, \<open>Promise.all\<close> would reject
  and the run would end with that error.
\<close>

definition batch_worker ::
  "env \<Rightarrow> bool \<Rightarrow> bool \<Rightarrow> string \<Rightarrow> ProcessingStats \<Rightarrow> (error + unit) \<times> ProcessingStats" where
  "batch_worker e skipExisting useLambda key stats =
     (case (if skipExisting then optimizedVersionExists e key else Inr False) of
        Inl err \<Rightarrow> (Inl err, stats)
      | Inr alreadyOptimized \<Rightarrow>
          if alreadyOptimized then (Inr (), stats\<lparr>skipped := skipped stats + 1\<rparr>)
          else if useLambda then processImageViaLambda e key stats
          else processImageDirect e key stats)"

fun run_batch ::
  "env \<Rightarrow> bool \<Rightarrow> bool \<Rightarrow> string list \<Rightarrow> ProcessingStats \<Rightarrow> error + ProcessingStats" where
  "run_batch e skipExisting useLambda [] stats = Inr stats"
| "run_batch e skipExisting useLambda (key # keys) stats =
     (case batch_worker e skipExisting useLambda key stats of
        (Inl err, stats') \<Rightarrow> Inl err
      | (Inr u, stats') \<Rightarrow> run_batch e skipExisting useLambda keys stats')"

text \<open>
  The state of a run: the statistics and the delays waited so far, one entry (the
  milliseconds handed to \<open>setTimeout\<close>) per delay. The batch size and the delay are
  integers; the loop \<open>for (let i = 0; i < allImages.length; i += batchSize)\<close> is
  written as it stands, so a run that never leaves it has no result.
\<close>

record run =
  stats :: ProcessingStats
  timeouts :: "int list"

partial_function (option) batch_loop ::
  "env \<Rightarrow> bool \<Rightarrow> bool \<Rightarrow> int \<Rightarrow> int \<Rightarrow> string list \<Rightarrow> int \<Rightarrow> run \<Rightarrow> (error + run) option" where
  "batch_loop e skipExisting useLambda batchSize delayBetweenBatches allImages i st =
     (if i < int (length allImages)
      then (case run_batch e skipExisting useLambda
                   (slice allImages i (i + batchSize)) (stats st) of
              Inl err \<Rightarrow> Some (Inl err)
            | Inr stats' \<Rightarrow>
                batch_loop e skipExisting useLambda batchSize delayBetweenBatches allImages
                  (i + batchSize)
                  \<lparr>stats = stats',
                   timeouts =
                     (if i + batchSize < int (length allImages) \<and> delayBetweenBatches > 0
                      then timeouts st @ [delayBetweenBatches] else timeouts st)\<rparr>)
      else Some (Inr st))"

declare batch_loop.simps [code]

record options =
  prefix :: "string option"
  skipExisting :: "bool option"
  useLambda :: "bool option"
  batchSize :: "int option"
  delayBetweenBatches :: "int option"

definition or_default :: "'a option \<Rightarrow> 'a \<Rightarrow> 'a" where
  "or_default v d = (case v of None \<Rightarrow> d | Some x \<Rightarrow> x)"

definition processExistingImages :: "env \<Rightarrow> options \<Rightarrow> (error + run) option" where
  "processExistingImages e opts =
     (case listAllImages e (or_default (prefix opts) []) of
        None \<Rightarrow> None
      | Some (Inl err) \<Rightarrow> Some (Inl err)
      | Some (Inr allImages) \<Rightarrow>
          batch_loop e
            (or_default (skipExisting opts) True)
            (or_default (useLambda opts) False)
            (or_default (batchSize opts) 10)
            (or_default (delayBetweenBatches opts) 1000)
            allImages 0
            \<lparr>stats = \<lparr>total' = length allImages, processed = 0, skipped = 0, errors = 0,
                       totalSizeBefore = 0, totalSizeAfter = 0\<rparr>,
             timeouts = []\<rparr>)"

section \<open>The bulk driver: what a run is measured against\<close>

text \<open>
  An item has an optimized version when the fetch of its \<open>.webp\<close> key or the fetch
  of its \<open>.png\<close> key from the optimized bucket succeeds. With skipping enabled such
  an item is skipped. Processing an item raises when the body of the processing
  function chosen for the run throws; whether it does depends on the answers of the
  service and of the image library, not on the statistics.
\<close>

definition fetched :: "error + s3_output \<Rightarrow> bool" where
  "fetched r = (case r of Inl err \<Rightarrow> False | Inr out \<Rightarrow> True)"

definition already_optimized :: "env \<Rightarrow> string \<Rightarrow> bool" where
  "already_optimized e key =
     (fetched (send e (GetObjectCommand (OPTIMIZED_BUCKET e)
                 (generateOptimizedKey key ''image/webp''))) \<or>
      fetched (send e (GetObjectCommand (OPTIMIZED_BUCKET e)
                 (generateOptimizedKey key ''image/png''))))"

definition skips :: "env \<Rightarrow> bool \<Rightarrow> string \<Rightarrow> bool" where
  "skips e skipping key = (skipping \<and> already_optimized e key)"

definition no_stats :: ProcessingStats where
  "no_stats = \<lparr>total' = 0, processed = 0, skipped = 0, errors = 0,
               totalSizeBefore = 0, totalSizeAfter = 0\<rparr>"

definition processing_raises :: "env \<Rightarrow> bool \<Rightarrow> string \<Rightarrow> bool" where
  "processing_raises e viaLambda key =
     isl (fst (if viaLambda then processImageViaLambda_body e key no_stats
               else processImageDirect_body e key no_stats))"

text \<open>The workers of a list of items, one after the other, on the statistics alone.\<close>

definition run_workers ::
  "env \<Rightarrow> bool \<Rightarrow> bool \<Rightarrow> string list \<Rightarrow> ProcessingStats \<Rightarrow> ProcessingStats" where
  "run_workers e skipping viaLambda keys st0 =
     foldl (\<lambda>st key. snd (batch_worker e skipping viaLambda key st)) st0 keys"

text \<open>
  The number of delays still to come when the loop stands at index \<open>i\<close> of a
  listing of \<open>L\<close> items.
\<close>

definition delays_from :: "int \<Rightarrow> int \<Rightarrow> int \<Rightarrow> int \<Rightarrow> nat" where
  "delays_from L B d i = (if 0 < d \<and> i < L then nat ((L - i - 1) div B) else 0)"

section \<open>An example environment\<close>

text \<open>
  A small world for running the model: an image library that knows two inputs (a PNG
  with an alpha channel and a JPEG), and a storage service with a source bucket
  \<open>uploads\<close> that holds \<open>a.jpg\<close>, \<open>b.jpg\<close> and \<open>logo.png\<close>, lists a
  \<open>missing.png\<close> that cannot be fetched, and an optimized bucket that holds
  \<open>b.webp\<close>. The listing has two pages; under the prefix \<open>empty/\<close> it is empty.
\<close>

definition example_png :: buffer where
  "example_png = [137, 80, 78, 71]"

definition example_jpeg :: buffer where
  "example_jpeg = [255, 216, 255]"

definition example_sharp :: sharp where
  "example_sharp =
     \<lparr>metadata = (\<lambda>input.
          if input = example_png
          then Inr \<lparr>format = Some ''png'', width = Some 400, height = Some 400,
                    hasAlpha = Some True\<rparr>
          else if input = example_jpeg
          then Inr \<lparr>format = Some ''jpeg'', width = Some 1600, height = Some 1200,
                    hasAlpha = Some False\<rparr>
          else Inl (Error ''Input buffer contains unsupported image format'')),
      toBuffer = (\<lambda>input opts out.
          case out of
            Png quality compressionLevel \<Rightarrow> Inr [137, 80]
          | Webp quality effort \<Rightarrow> Inr [82, 73, 70, 70])\<rparr>"

definition example_output :: s3_output where
  "example_output = \<lparr>Body = None, Contents = None, NextContinuationToken = None\<rparr>"

definition example_send :: "s3_command \<Rightarrow> error + s3_output" where
  "example_send command =
     (case command of
        GetObjectCommand bucket key \<Rightarrow>
          if bucket = ''uploads'' \<and> (key = ''a.jpg'' \<or> key = ''b.jpg'')
          then Inr (example_output\<lparr>Body := Some (Inr example_jpeg)\<rparr>)
          else if bucket = ''uploads'' \<and> key = ''logo.png''
          then Inr (example_output\<lparr>Body := Some (Inr example_png)\<rparr>)
          else if bucket = ''optimized'' \<and> key = ''b.webp''
          then Inr (example_output\<lparr>Body := Some (Inr [82, 73, 70, 70])\<rparr>)
          else Inl (Error ''NoSuchKey'')
      | PutObjectCommand bucket key body ct \<Rightarrow> Inr example_output
      | CopyObjectCommand bucket key \<Rightarrow> Inr example_output
      | ListObjectsV2Command bucket pre token \<Rightarrow>
          if pre = ''empty/'' then Inr example_output
          else if token = None
          then Inr (example_output\<lparr>Contents := Some [Some ''a.jpg'', Some ''b.jpg'', Some ''notes.txt''],
                                   NextContinuationToken := Some ''page2''\<rparr>)
          else Inr (example_output\<lparr>Contents := Some [Some ''missing.png'']\<rparr>))"

definition example_env :: env where
  "example_env =
     \<lparr>SOURCE_BUCKET = ''uploads'', OPTIMIZED_BUCKET = ''optimized'',
      send = example_send, image_lib = example_sharp,
      decodeURIComponent = (\<lambda>s. Inr s)\<rparr>"

definition example_options :: options where
  "example_options =
     \<lparr>prefix = None, skipExisting = Some True, useLambda = Some False,
      batchSize = Some 2, delayBetweenBatches = Some 500\<rparr>"



text \<open>
  Two events for the example environment: one whose first record cannot be fetched,
  and one whose first two records are to be skipped (the first lies in the optimized
  bucket, the second is not an image).
\<close>

definition example_failing_event :: "S3EventRecord list" where
  "example_failing_event =
     [\<lparr>bucket_name = ''uploads'', object_key = ''missing.png''\<rparr>,
      \<lparr>bucket_name = ''uploads'', object_key = ''a.jpg''\<rparr>]"

definition example_skipping_event :: "S3EventRecord list" where
  "example_skipping_event =
     [\<lparr>bucket_name = ''optimized'', object_key = ''b.webp''\<rparr>,
      \<lparr>bucket_name = ''uploads'', object_key = ''notes.txt''\<rparr>,
      \<lparr>bucket_name = ''uploads'', object_key = ''a.jpg''\<rparr>]"

section \<open>Facts about the string primitives\<close>

lemma lastIndexOf_from_absent:
  "k \<le> length s \<Longrightarrow> c \<notin> set (take k s) \<Longrightarrow> lastIndexOf_from s c k = - 1"
proof (induction k)
  case 0
  show ?case by simp
next
  case (Suc k)
  from Suc.prems have "s ! k \<in> set (take (Suc k) s)"
    by (simp add: take_Suc_conv_app_nth)
  with Suc.prems have "s ! k \<noteq> c" by auto
  moreover from Suc.prems have "c \<notin> set (take k s)"
    by (auto dest: in_set_takeD simp: take_Suc_conv_app_nth)
  ultimately show ?case using Suc by simp
qed

lemma lastIndexOf_absent: "c \<notin> set s \<Longrightarrow> lastIndexOf s c = - 1"
  by (simp add: lastIndexOf_def lastIndexOf_from_absent)

lemma lastIndexOf_from_last:
  "c \<notin> set ext \<Longrightarrow> j \<le> length ext \<Longrightarrow>
   lastIndexOf_from (base @ c # ext) c (Suc (length base + j)) = int (length base)"
proof (induction j)
  case 0
  show ?case by simp
next
  case (Suc j)
  from Suc.prems have "ext ! j \<in> set ext" by simp
  with Suc.prems have "ext ! j \<noteq> c" by auto
  moreover have "(base @ c # ext) ! Suc (length base + j) = ext ! j"
    by (simp add: nth_append)
  ultimately show ?case using Suc by simp
qed

lemma lastIndexOf_last:
  "c \<notin> set ext \<Longrightarrow> lastIndexOf (base @ c # ext) c = int (length base)"
  using lastIndexOf_from_last [of c ext "length ext" base]
  by (simp add: lastIndexOf_def)

lemma substring_prefix: "substring (base @ rest) 0 (int (length base)) = base"
  by (simp add: substring_def Let_def min_def max_def)

lemma substring_to_negative: "e < 0 \<Longrightarrow> substring s 0 e = []"
  by (simp add: substring_def Let_def min_def max_def)

lemma substring_from_suffix:
  "substring_from (base @ rest) (int (length base)) = rest"
  by (simp add: substring_from_def substring_def Let_def min_def max_def)

lemma substring_from_negative: "i < 0 \<Longrightarrow> substring_from s i = s"
  by (simp add: substring_from_def substring_def Let_def min_def max_def)

lemma DOT_46: "DOT = 46"
  by (simp add: DOT_def)

lemmas isSupportedImage_unfold =
  isSupportedImage_def toLowerCase_def toLowerCase_unit_def code_units_def DOT_def
  lastIndexOf_def substring_from_def substring_def SUPPORTED_FORMATS_def

lemma toLowerCase_append: "toLowerCase (xs @ ys) = toLowerCase xs @ toLowerCase ys"
  by (simp add: toLowerCase_def)

lemma length_toLowerCase_unit: "u \<noteq> 304 \<Longrightarrow> length (toLowerCase_unit u) = 1"
  by (simp add: toLowerCase_unit_def)

lemma length_toLowerCase: "304 \<notin> set s \<Longrightarrow> length (toLowerCase s) = length s"
  by (induction s) (simp_all add: toLowerCase_def length_toLowerCase_unit)

lemma toLowerCase_unit_dot: "DOT \<in> set (toLowerCase_unit u) \<longleftrightarrow> u = DOT"
  by (auto simp: toLowerCase_unit_def DOT_46 split: if_splits)

lemma dot_in_toLowerCase: "DOT \<in> set (toLowerCase s) \<longleftrightarrow> DOT \<in> set s"
  by (induction s) (simp_all add: toLowerCase_def toLowerCase_unit_dot eq_commute)

lemma dot_in_SUPPORTED_FORMATS: "e \<in> set SUPPORTED_FORMATS \<Longrightarrow> DOT \<in> set e"
  by (auto simp: SUPPORTED_FORMATS_def code_units_def DOT_def)

lemma isSupportedImage_dotted:
  assumes "DOT \<notin> set ext" and "304 \<notin> set base"
  shows "isSupportedImage (base @ DOT # ext) \<longleftrightarrow>
         toLowerCase (DOT # ext) \<in> set SUPPORTED_FORMATS"
proof -
  have "substring_from (toLowerCase (base @ DOT # ext)) (int (length base)) =
        toLowerCase (DOT # ext)"
    using substring_from_suffix [of "toLowerCase base" "toLowerCase (DOT # ext)"] assms(2)
    by (simp add: toLowerCase_append length_toLowerCase)
  then show ?thesis
    by (simp add: isSupportedImage_def lastIndexOf_last [OF assms(1)])
qed

lemma isSupportedImage_undotted:
  assumes "DOT \<notin> set key"
  shows "\<not> isSupportedImage key"
proof
  assume "isSupportedImage key"
  then have "toLowerCase key \<in> set SUPPORTED_FORMATS"
    by (simp add: isSupportedImage_def lastIndexOf_absent [OF assms] substring_from_negative)
  then have "DOT \<in> set (toLowerCase key)"
    by (rule dot_in_SUPPORTED_FORMATS)
  with assms show False by (simp add: dot_in_toLowerCase)
qed

lemma generateOptimizedKey_dotted:
  assumes "CHR ''.'' \<notin> set ext"
  shows "generateOptimizedKey (base @ CHR ''.'' # ext) ct =
         (if ct = ''image/webp'' then base @ ''.webp''
          else if ct = ''image/png'' then base @ ''.png''
          else base @ CHR ''.'' # ext)"
  by (simp add: generateOptimizedKey_def lastIndexOf_last [OF assms] substring_prefix)

lemma generateOptimizedKey_undotted:
  assumes "CHR ''.'' \<notin> set key"
  shows "generateOptimizedKey key ct =
         (if ct = ''image/webp'' then ''.webp''
          else if ct = ''image/png'' then ''.png''
          else key)"
  by (simp add: generateOptimizedKey_def lastIndexOf_absent [OF assms] substring_to_negative)

section \<open>Supported keys and derived keys: the properties\<close>

lemma baseName_dotted:
  "CHR ''.'' \<notin> set ext \<Longrightarrow> baseName (base @ CHR ''.'' # ext) = base"
  by (simp add: baseName_def lastIndexOf_last substring_prefix)

text \<open>
  Where no capital I with a dot above stands before the last dot, \<open>toLowerCase\<close>
  keeps the length of that part and the cut falls on the last dot: the key is supported
  exactly when its extension, in lower case, is in the allow-list. A key without a dot
  is never supported.
\<close>

lemma isSupportedImage_where_length_is_kept:
  "(DOT \<notin> set ext \<and> 304 \<notin> set base \<longrightarrow>
      isSupportedImage (base @ DOT # ext) =
        (toLowerCase (DOT # ext) \<in>
           set (map code_units [''.jpg'', ''.jpeg'', ''.png'', ''.webp'', ''.tiff'', ''.bmp'']))) \<and>
   (DOT \<notin> set key \<longrightarrow> \<not> isSupportedImage key)"
  using isSupportedImage_dotted [of ext base] isSupportedImage_undotted [of key]
  by (simp add: SUPPORTED_FORMATS_def)

lemma isSupportedImage_examples:
  "isSupportedImage (code_units ''photos/cat.JpG'') \<and>
   isSupportedImage (code_units ''RESIM.JPG'') \<and>
   \<not> isSupportedImage (code_units ''photos/cat.gif'') \<and>
   \<not> isSupportedImage (code_units ''README'')"
  by (simp add: isSupportedImage_unfold)

text \<open>
  C8. The claim fails on the code for a key with the capital I with a dot above,
  U+0130, before its last dot. The key made of U+0130 and \<open>.jpg\<close> has its last dot
  at index 1 and the allow-listed extension \<open>.jpg\<close>. \<open>isSupportedImage\<close> takes the
  index from the key and cuts the lower-cased key there; lower-casing has put two code
  units in the place of U+0130, so what is cut off is the combining dot U+0307 followed
  by \<open>.jpg\<close>, which is not in the allow-list: the answer is false.
\<close>

theorem isSupportedImage_dotted_capital_I:
  "lastIndexOf (304 # code_units ''.jpg'') DOT = 1 \<and>
   toLowerCase (substring_from (304 # code_units ''.jpg'') 1) = code_units ''.jpg'' \<and>
   code_units ''.jpg'' \<in> set SUPPORTED_FORMATS \<and>
   toLowerCase (304 # code_units ''.jpg'') = 105 # 775 # code_units ''.jpg'' \<and>
   substring_from (toLowerCase (304 # code_units ''.jpg'')) 1 = 775 # code_units ''.jpg'' \<and>
   \<not> isSupportedImage (304 # code_units ''.jpg'')"
  by (simp add: isSupportedImage_unfold)

text \<open>
  C2. For a key with an extension (a last dot, and after it no further dot), the
  derived key for \<open>image/webp\<close> is the key with the extension replaced by \<open>.webp\<close>,
  for \<open>image/png\<close> the key with the extension replaced by \<open>.png\<close>, and for any
  other content type the key itself; in each case the base name of the derived key is
  the base name of the key.
\<close>

theorem generateOptimizedKey_extension:
  assumes "CHR ''.'' \<notin> set ext"
  shows "generateOptimizedKey (base @ CHR ''.'' # ext) ''image/webp'' = base @ ''.webp'' \<and>
         generateOptimizedKey (base @ CHR ''.'' # ext) ''image/png'' = base @ ''.png'' \<and>
         (ct \<noteq> ''image/webp'' \<and> ct \<noteq> ''image/png'' \<longrightarrow>
            generateOptimizedKey (base @ CHR ''.'' # ext) ct = base @ CHR ''.'' # ext) \<and>
         baseName (base @ CHR ''.'' # ext) = base \<and>
         baseName (generateOptimizedKey (base @ CHR ''.'' # ext) ct) =
           baseName (base @ CHR ''.'' # ext)"
proof -
  have webp: "baseName (base @ ''.webp'') = base"
    using baseName_dotted [of "''webp''" base] by simp
  have png: "baseName (base @ ''.png'') = base"
    using baseName_dotted [of "''png''" base] by simp
  show ?thesis
    using assms webp png
    by (simp add: generateOptimizedKey_dotted baseName_dotted)
qed

theorem generateOptimizedKey_extension_witness:
  "CHR ''.'' \<notin> set ''JPG'' \<and>
   generateOptimizedKey ''img/photo.JPG'' ''image/webp'' = ''img/photo.webp'' \<and>
   generateOptimizedKey ''img/photo.JPG'' ''image/png'' = ''img/photo.png'' \<and>
   generateOptimizedKey ''img/photo.JPG'' ''image/gif'' = ''img/photo.JPG'' \<and>
   baseName (generateOptimizedKey ''img/photo.JPG'' ''image/gif'') = ''img/photo''"
  using generateOptimizedKey_extension [of "''JPG''" "''img/photo''" "''image/gif''"]
  by simp

text \<open>
  C10. For a key without any dot, \<open>lastIndexOf\<close> answers \<open>-1\<close>, the base name is
  the empty string, and the derived key is exactly \<open>.webp\<close> for \<open>image/webp\<close> and
  exactly \<open>.png\<close> for \<open>image/png\<close>: nothing of the key is kept.
\<close>

theorem generateOptimizedKey_no_dot:
  assumes "CHR ''.'' \<notin> set key"
  shows "lastIndexOf key CHR ''.'' = - 1 \<and>
         substring key 0 (- 1) = [] \<and>
         generateOptimizedKey key ''image/webp'' = ''.webp'' \<and>
         generateOptimizedKey key ''image/png'' = ''.png''"
  using assms
  by (simp add: lastIndexOf_absent substring_to_negative generateOptimizedKey_undotted)

theorem generateOptimizedKey_no_dot_witness:
  "CHR ''.'' \<notin> set ''uploads/README'' \<and>
   lastIndexOf ''uploads/README'' CHR ''.'' = - 1 \<and>
   generateOptimizedKey ''uploads/README'' ''image/webp'' = ''.webp'' \<and>
   generateOptimizedKey ''uploads/README'' ''image/png'' = ''.png''"
  using generateOptimizedKey_no_dot [of "''uploads/README''"]
  by simp

section \<open>Format selection\<close>

text \<open>
  C1. For an input that the library decodes: when the source format is PNG and the
  image has an alpha channel, every result of \<open>optimizeImage\<close> has content type
  \<open>image/png\<close>, and there is a result whenever the PNG encoder succeeds; in every
  other case every result has content type \<open>image/webp\<close>, and there is a result
  whenever the WebP encoder succeeds. No other content type is ever returned.
\<close>

theorem optimizeImage_contentType:
  assumes "metadata lib input = Inr md"
  shows "(format md = Some ''png'' \<and> hasAlpha md = Some True \<longrightarrow>
            (\<forall>r. optimizeImage lib input key = Inr r \<longrightarrow> contentType r = ''image/png'') \<and>
            (\<forall>out. toBuffer lib input resize_call (Png QUALITY 9) = Inr out \<longrightarrow>
               optimizeImage lib input key =
                 Inr \<lparr>buffer = out, contentType = ''image/png'', size' = length out\<rparr>)) \<and>
         (\<not> (format md = Some ''png'' \<and> hasAlpha md = Some True) \<longrightarrow>
            (\<forall>r. optimizeImage lib input key = Inr r \<longrightarrow> contentType r = ''image/webp'') \<and>
            (\<forall>out. toBuffer lib input resize_call (Webp QUALITY 6) = Inr out \<longrightarrow>
               optimizeImage lib input key =
                 Inr \<lparr>buffer = out, contentType = ''image/webp'', size' = length out\<rparr>)) \<and>
         (\<forall>r. optimizeImage lib input key = Inr r \<longrightarrow>
            contentType r = ''image/png'' \<or> contentType r = ''image/webp'')"
  using assms
  by (auto simp: optimizeImage_def split: sum.splits)

theorem optimizeImage_contentType_witness:
  "metadata example_sharp example_png =
     Inr \<lparr>format = Some ''png'', width = Some 400, height = Some 400, hasAlpha = Some True\<rparr> \<and>
   optimizeImage example_sharp example_png ''logo.png'' =
     Inr \<lparr>buffer = [137, 80], contentType = ''image/png'', size' = 2\<rparr> \<and>
   metadata example_sharp example_jpeg =
     Inr \<lparr>format = Some ''jpeg'', width = Some 1600, height = Some 1200,
          hasAlpha = Some False\<rparr> \<and>
   optimizeImage example_sharp example_jpeg ''photo.JPG'' =
     Inr \<lparr>buffer = [82, 73, 70, 70], contentType = ''image/webp'', size' = 4\<rparr>"
proof -
  have png: "metadata example_sharp example_png =
     Inr \<lparr>format = Some ''png'', width = Some 400, height = Some 400, hasAlpha = Some True\<rparr>"
    by (simp add: example_sharp_def)
  have jpeg: "metadata example_sharp example_jpeg =
     Inr \<lparr>format = Some ''jpeg'', width = Some 1600, height = Some 1200,
          hasAlpha = Some False\<rparr>"
    by (simp add: example_sharp_def example_png_def example_jpeg_def)
  have enc_png: "toBuffer example_sharp example_png resize_call (Png QUALITY 9) = Inr [137, 80]"
    by (simp add: example_sharp_def)
  have enc_webp:
    "toBuffer example_sharp example_jpeg resize_call (Webp QUALITY 6) = Inr [82, 73, 70, 70]"
    by (simp add: example_sharp_def)
  show ?thesis
    using optimizeImage_contentType [OF png, of "''logo.png''"]
      optimizeImage_contentType [OF jpeg, of "''photo.JPG''"]
      png jpeg enc_png enc_webp
    by simp
qed

section \<open>The event handler: invariants of an invocation\<close>

lemma rejection_Some: "rejection t = Some err \<longleftrightarrow> t = Settled (Inl err)"
  by (cases t rule: rejection.cases) auto

lemma first_rejection_Some:
  "first_rejection ts = Some err \<Longrightarrow> Settled (Inl err) \<in> set ts"
  by (induction ts) (auto simp: rejection_Some split: option.splits)

lemma first_rejection_None:
  "first_rejection ts = None \<longleftrightarrow> (\<forall>t \<in> set ts. rejection t = None)"
  by (induction ts) (auto split: option.splits)

lemma all_fulfilled_iff: "all_fulfilled ts \<longleftrightarrow> (\<forall>t \<in> set ts. t = Settled (Inr ()))"
  by (simp add: all_fulfilled_def list_all_iff)

lemma set_update_keeps:
  assumes "x \<in> set xs" and "xs ! i \<noteq> x"
  shows "x \<in> set (xs[i := y])"
proof -
  from assms(1) obtain j where j: "j < length xs" "xs ! j = x"
    by (auto simp: in_set_conv_nth)
  with assms(2) have "j \<noteq> i" by auto
  with j have "xs[i := y] ! j = x" by simp
  with j(1) show ?thesis by (metis length_list_update nth_mem)
qed

text \<open>
  The join: while the handler is pending no task has rejected and not all are
  fulfilled; a failed handler carries the error of a rejected task; a handler that
  succeeded has all its tasks fulfilled.
\<close>

definition joined :: "invocation \<Rightarrow> bool" where
  "joined s =
     (case outcome s of
        None \<Rightarrow> first_rejection (tasks s) = None \<and> \<not> all_fulfilled (tasks s)
      | Some (Inl err) \<Rightarrow> Settled (Inl err) \<in> set (tasks s)
      | Some (Inr u) \<Rightarrow> all_fulfilled (tasks s))"

lemma step_idle:
  "\<not> (i < length (tasks s) \<and> \<not> settled (tasks s ! i)) \<Longrightarrow> step e s i = s"
  unfolding step_def by (rule if_not_P)

lemma joined_handler_start: "joined (handler_start e Records)"
proof (cases "first_rejection (map (start_task e) Records)")
  case None
  then show ?thesis by (simp add: joined_def handler_start_def Let_def)
next
  case (Some err)
  then have "Settled (Inl err) \<in> set (map (start_task e) Records)"
    by (rule first_rejection_Some)
  with Some show ?thesis by (simp add: joined_def handler_start_def Let_def)
qed

lemma joined_step:
  assumes "joined s"
  shows "joined (step e s i)"
proof (cases "i < length (tasks s) \<and> \<not> settled (tasks s ! i)")
  case False
  then have "step e s i = s" by (rule step_idle)
  with assms show ?thesis by simp
next
  case True
  define t where "t = advance e (tasks s ! i)"
  define ts where "ts = (tasks s)[i := t]"
  from True have i: "i < length (tasks s)" and unsettled: "\<not> settled (tasks s ! i)"
    by simp_all
  have t_in: "t \<in> set ts"
    using i by (simp add: ts_def set_update_memI)
  have not_fulfilled: "\<not> all_fulfilled (tasks s)"
  proof
    assume "all_fulfilled (tasks s)"
    with i have "tasks s ! i = Settled (Inr ())" by (simp add: all_fulfilled_iff)
    with unsettled show False by simp
  qed
  show ?thesis
  proof (cases "outcome s")
    case (Some r)
    show ?thesis
    proof (cases r)
      case (Inl err)
      with Some assms have mem: "Settled (Inl err) \<in> set (tasks s)"
        by (simp add: joined_def)
      from unsettled have "tasks s ! i \<noteq> Settled (Inl err)" by auto
      with mem have "Settled (Inl err) \<in> set ts"
        unfolding ts_def by (rule set_update_keeps)
      with True Some Inl show ?thesis
        by (simp add: joined_def step_def Let_def ts_def t_def)
    next
      case (Inr u)
      with Some assms not_fulfilled show ?thesis by (simp add: joined_def)
    qed
  next
    case None
    with assms have none: "\<forall>x \<in> set (tasks s). rejection x = None"
      by (simp add: joined_def first_rejection_None)
    show ?thesis
    proof (cases "rejection t")
      case (Some err)
      then have "t = Settled (Inl err)" by (simp add: rejection_Some)
      with t_in have "Settled (Inl err) \<in> set ts" by simp
      with True None Some show ?thesis
        by (simp add: joined_def step_def Let_def ts_def t_def)
    next
      case rn: None
      have "\<forall>x \<in> set ts. rejection x = None"
      proof
        fix x assume "x \<in> set ts"
        then have "x = t \<or> x \<in> set (tasks s)"
          unfolding ts_def using set_update_subset_insert [of "tasks s" i t] by auto
        with rn none show "rejection x = None" by auto
      qed
      then have "first_rejection ts = None" by (simp add: first_rejection_None)
      with True None rn show ?thesis
        by (simp add: joined_def step_def Let_def ts_def t_def)
    qed
  qed
qed

lemma joined_foldl: "joined s \<Longrightarrow> joined (foldl (step e) s schedule)"
  by (induction schedule arbitrary: s) (simp_all add: joined_step)

lemma joined_handler: "joined (handler e Records schedule)"
  by (simp add: handler_def joined_foldl joined_handler_start)

lemma length_tasks_step: "length (tasks (step e s i)) = length (tasks s)"
  by (simp add: step_def Let_def)

lemma length_tasks_foldl: "length (tasks (foldl (step e) s schedule)) = length (tasks s)"
  by (induction schedule arbitrary: s) (simp_all add: length_tasks_step)

lemma length_tasks_handler: "length (tasks (handler e Records schedule)) = length Records"
  by (simp add: handler_def length_tasks_foldl handler_start_def Let_def)

lemma outcome_step_final: "outcome s = Some r \<Longrightarrow> outcome (step e s i) = Some r"
  by (simp add: step_def Let_def)

lemma outcome_foldl_final:
  "outcome s = Some r \<Longrightarrow> outcome (foldl (step e) s schedule) = Some r"
  by (induction schedule arbitrary: s) (simp_all add: outcome_step_final)

lemma handler_append:
  "handler e Records (schedule @ later) = foldl (step e) (handler e Records schedule) later"
  by (simp add: handler_def)

text \<open>
  A record that is skipped: its task is fulfilled from the start and no command
  carries its index.
\<close>

definition skipped_record :: "nat \<Rightarrow> invocation \<Rightarrow> bool" where
  "skipped_record i s \<longleftrightarrow>
     i < length (tasks s) \<and> tasks s ! i = Settled (Inr ()) \<and> i \<notin> fst ` set (sent s)"

lemma sent_handler_start:
  "(i, c) \<in> set (sent (handler_start e Records)) \<Longrightarrow>
   i < length Records \<and> c \<in> set (sent_on_entry (start_task e (Records ! i)))"
  by (auto simp: handler_start_def Let_def in_set_zip)

lemma skipped_record_step:
  assumes "skipped_record i s"
  shows "skipped_record i (step e s j)"
proof (cases "j < length (tasks s) \<and> \<not> settled (tasks s ! j)")
  case False
  then have "step e s j = s" by (rule step_idle)
  with assms show ?thesis by simp
next
  case True
  with assms have "j \<noteq> i" by (auto simp: skipped_record_def)
  with True assms show ?thesis
    by (auto simp: skipped_record_def step_def Let_def)
qed

lemma skipped_record_foldl:
  "skipped_record i s \<Longrightarrow> skipped_record i (foldl (step e) s schedule)"
  by (induction schedule arbitrary: s) (simp_all add: skipped_record_step)

lemma start_task_guard:
  assumes "decodeURIComponent e (replace_plus (object_key r)) = Inr sourceKey"
    and "\<not> isSupportedImage (code_units sourceKey) \<or> bucket_name r = OPTIMIZED_BUCKET e"
  shows "start_task e r = Settled (Inr ())"
  using assms by (auto simp: start_task_def Let_def)

lemma skipped_record_handler_start:
  assumes "i < length Records" and "start_task e (Records ! i) = Settled (Inr ())"
  shows "skipped_record i (handler_start e Records)"
proof -
  have "i \<notin> fst ` set (sent (handler_start e Records))"
  proof
    assume "i \<in> fst ` set (sent (handler_start e Records))"
    then obtain c where "(i, c) \<in> set (sent (handler_start e Records))" by auto
    then have "c \<in> set (sent_on_entry (start_task e (Records ! i)))"
      by (simp add: sent_handler_start)
    with assms(2) show False by simp
  qed
  with assms show ?thesis
    by (simp add: skipped_record_def handler_start_def Let_def)
qed

lemma sent_step_subset: "set (sent s) \<subseteq> set (sent (step e s i))"
  by (auto simp: step_def Let_def)

lemma sent_foldl_subset: "set (sent s) \<subseteq> set (sent (foldl (step e) s schedule))"
proof (induction schedule arbitrary: s)
  case Nil
  show ?case by simp
next
  case (Cons i schedule)
  have "set (sent s) \<subseteq> set (sent (step e s i))" by (rule sent_step_subset)
  also have "\<dots> \<subseteq> set (sent (foldl (step e) (step e s i) schedule))" by (rule Cons.IH)
  finally show ?case by simp
qed

lemma sent_at_start:
  assumes "i < length Records" and "c \<in> set (sent_on_entry (start_task e (Records ! i)))"
  shows "(i, c) \<in> set (sent (handler_start e Records))"
proof -
  let ?ts = "map (start_task e) Records"
  from assms(1) have "(i, ?ts ! i) \<in> set (zip [0 ..< length ?ts] ?ts)"
    by (auto simp: in_set_zip intro!: exI [of _ i])
  moreover from assms have "(i, c) \<in> set (map (Pair i) (sent_on_entry (?ts ! i)))"
    by simp
  ultimately show ?thesis
    unfolding handler_start_def Let_def by (auto intro!: bexI [of _ "(i, ?ts ! i)"])
qed

lemma started_before_join:
  assumes "i < length Records"
  shows "settled (start_task e (Records ! i)) \<or>
         (start_task e (Records ! i) =
            Await_get (bucket_name (Records ! i)) (projr (decodeURIComponent e
              (replace_plus (object_key (Records ! i))))) \<and>
          (i, GetObjectCommand (bucket_name (Records ! i)) (projr (decodeURIComponent e
              (replace_plus (object_key (Records ! i)))))) \<in>
            set (sent (handler e Records schedule)))"
proof (cases "settled (start_task e (Records ! i))")
  case True
  then show ?thesis by simp
next
  case False
  let ?b = "bucket_name (Records ! i)"
  let ?k = "projr (decodeURIComponent e (replace_plus (object_key (Records ! i))))"
  from False have st: "start_task e (Records ! i) = Await_get ?b ?k"
    by (auto simp: start_task_def Let_def split: sum.splits if_splits)
  then have "GetObjectCommand ?b ?k \<in> set (sent_on_entry (start_task e (Records ! i)))"
    by simp
  with assms have "(i, GetObjectCommand ?b ?k) \<in> set (sent (handler_start e Records))"
    by (rule sent_at_start)
  then have "(i, GetObjectCommand ?b ?k) \<in> set (sent (handler e Records schedule))"
    unfolding handler_def using sent_foldl_subset by blast
  with st show ?thesis by simp
qed

section \<open>The event handler: the properties\<close>

text \<open>
  C7. A record whose decoded key is not a supported image, or whose bucket is the
  optimized bucket, is skipped: its callback returns at once without a throw and sends
  no command, and under every order of completion its task stays fulfilled and no
  fetch or store carries its index.
\<close>

theorem handler_skips_guarded_record:
  assumes "i < length Records"
    and "decodeURIComponent e (replace_plus (object_key (Records ! i))) = Inr sourceKey"
    and "\<not> isSupportedImage (code_units sourceKey) \<or> bucket_name (Records ! i) = OPTIMIZED_BUCKET e"
  shows "start_task e (Records ! i) = Settled (Inr ()) \<and>
         sent_on_entry (start_task e (Records ! i)) = [] \<and>
         tasks (handler e Records schedule) ! i = Settled (Inr ()) \<and>
         i \<notin> fst ` set (sent (handler e Records schedule))"
proof -
  from assms(2,3) have st: "start_task e (Records ! i) = Settled (Inr ())"
    by (rule start_task_guard)
  with assms(1) have "skipped_record i (handler_start e Records)"
    by (rule skipped_record_handler_start)
  then have "skipped_record i (handler e Records schedule)"
    unfolding handler_def by (rule skipped_record_foldl)
  with st show ?thesis by (simp add: skipped_record_def)
qed

theorem handler_skips_guarded_record_witness:
  "bucket_name (example_skipping_event ! 0) = OPTIMIZED_BUCKET example_env \<and>
   tasks (handler example_env example_skipping_event [2, 0, 2, 1, 2, 2]) ! 0 = Settled (Inr ()) \<and>
   0 \<notin> fst ` set (sent (handler example_env example_skipping_event [2, 0, 2, 1, 2, 2])) \<and>
   \<not> isSupportedImage (code_units ''notes.txt'') \<and>
   tasks (handler example_env example_skipping_event [2, 0, 2, 1, 2, 2]) ! 1 = Settled (Inr ()) \<and>
   1 \<notin> fst ` set (sent (handler example_env example_skipping_event [2, 0, 2, 1, 2, 2]))"
proof -
  have len0: "0 < length example_skipping_event" and len1: "1 < length example_skipping_event"
    by (simp_all add: example_skipping_event_def)
  have dec0: "decodeURIComponent example_env
      (replace_plus (object_key (example_skipping_event ! 0))) = Inr ''b.webp''"
    by (simp add: example_env_def example_skipping_event_def replace_plus_def)
  have dec1: "decodeURIComponent example_env
      (replace_plus (object_key (example_skipping_event ! 1))) = Inr ''notes.txt''"
    by (simp add: example_env_def example_skipping_event_def replace_plus_def)
  have same: "bucket_name (example_skipping_event ! 0) = OPTIMIZED_BUCKET example_env"
    by (simp add: example_env_def example_skipping_event_def)
  have unsupported: "\<not> isSupportedImage (code_units ''notes.txt'')"
    by (simp add: isSupportedImage_unfold)
  show ?thesis
    using handler_skips_guarded_record [OF len0 dec0 disjI2 [OF same], of "[2, 0, 2, 1, 2, 2]"]
      handler_skips_guarded_record [OF len1 dec1 disjI1 [OF unsupported], of "[2, 0, 2, 1, 2, 2]"]
      same unsupported
    by simp
qed

text \<open>
  C3, as the code has it. Every record is started before the join: its callback has
  returned or thrown, or its fetch has been sent. Under every order of completion the
  handler has failed exactly when the task of some record has rejected; the error it
  fails with is the error of a rejected task, and the failure stays whatever completes
  later. The handler does not wait for the other records: it fails at the first
  rejection, whether or not their stores have been sent.
\<close>

theorem handler_fails_at_first_rejection:
  "length (tasks (handler e Records schedule)) = length Records \<and>
   (\<forall>i < length Records.
      settled (start_task e (Records ! i)) \<or>
      (start_task e (Records ! i) =
         Await_get (bucket_name (Records ! i)) (projr (decodeURIComponent e
           (replace_plus (object_key (Records ! i))))) \<and>
       (i, GetObjectCommand (bucket_name (Records ! i)) (projr (decodeURIComponent e
           (replace_plus (object_key (Records ! i)))))) \<in>
         set (sent (handler e Records schedule)))) \<and>
   ((\<exists>err. outcome (handler e Records schedule) = Some (Inl err)) \<longleftrightarrow>
    (\<exists>err. Settled (Inl err) \<in> set (tasks (handler e Records schedule)))) \<and>
   (\<forall>err. outcome (handler e Records schedule) = Some (Inl err) \<longrightarrow>
      Settled (Inl err) \<in> set (tasks (handler e Records schedule)) \<and>
      outcome (handler e Records (schedule @ later)) = Some (Inl err))"
proof -
  let ?s = "handler e Records schedule"
  have j: "joined ?s" by (rule joined_handler)
  have mem: "Settled (Inl err) \<in> set (tasks ?s)" if "outcome ?s = Some (Inl err)" for err
    using j that by (simp add: joined_def)
  have fails: "\<exists>err'. outcome ?s = Some (Inl err')" if r: "Settled (Inl err) \<in> set (tasks ?s)" for err
  proof (cases "outcome ?s")
    case None
    with j have "\<forall>t \<in> set (tasks ?s). rejection t = None"
      by (simp add: joined_def first_rejection_None)
    with r have "rejection (Settled (Inl err)) = None" by blast
    then show ?thesis by simp
  next
    case (Some res)
    show ?thesis
    proof (cases res)
      case (Inl err')
      with Some show ?thesis by simp
    next
      case (Inr u)
      with Some j have "all_fulfilled (tasks ?s)" by (simp add: joined_def)
      with r have "Settled (Inl err) = Settled (Inr ())" by (simp add: all_fulfilled_iff)
      then show ?thesis by simp
    qed
  qed
  have stays: "outcome (handler e Records (schedule @ later)) = Some (Inl err)"
    if "outcome ?s = Some (Inl err)" for err
    using that by (simp add: handler_append outcome_foldl_final)
  show ?thesis
    using mem fails stays started_before_join [of _ Records e schedule]
    by (auto simp: length_tasks_handler)
qed

theorem handler_fails_at_first_rejection_witness:
  "outcome (handler example_env example_failing_event [0]) = Some (Inl (Error ''NoSuchKey'')) \<and>
   Settled (Inl (Error ''NoSuchKey'')) \<in> set (tasks (handler example_env example_failing_event [0])) \<and>
   outcome (handler example_env example_failing_event ([0] @ [1, 1, 1, 1])) =
     Some (Inl (Error ''NoSuchKey'')) \<and>
   length (tasks (handler example_env example_failing_event [0])) = length example_failing_event"
proof -
  have failed: "outcome (handler example_env example_failing_event [0]) =
      Some (Inl (Error ''NoSuchKey''))"
    by code_simp
  show ?thesis
    using handler_fails_at_first_rejection
      [of example_env example_failing_event "[0]" "[1, 1, 1, 1]"] failed
    by blast
qed

text \<open>
  C3, as the claim has it, fails: in the example event the fetch of the first record
  fails; once it has, the handler has failed, while the second record still awaits its
  fetch and has sent no store.
\<close>

theorem handler_fails_before_other_stores:
  "outcome (handler example_env example_failing_event [0]) = Some (Inl (Error ''NoSuchKey'')) \<and>
   tasks (handler example_env example_failing_event [0]) =
     [Settled (Inl (Error ''NoSuchKey'')), Await_get ''uploads'' ''a.jpg''] \<and>
   sent (handler example_env example_failing_event [0]) =
     [(0, GetObjectCommand ''uploads'' ''missing.png''),
      (1, GetObjectCommand ''uploads'' ''a.jpg'')]"
  by code_simp

section \<open>The bulk driver: workers, batches and the loop\<close>

lemma probe_checkKeys_two:
  "probe_checkKeys e [a, b] =
     Inr (fetched (send e (GetObjectCommand (OPTIMIZED_BUCKET e) a)) \<or>
          fetched (send e (GetObjectCommand (OPTIMIZED_BUCKET e) b)))"
  by (simp add: fetched_def split: sum.splits)

lemma optimizedVersionExists_eq:
  "optimizedVersionExists e key = Inr (already_optimized e key)"
  unfolding optimizedVersionExists_def Let_def already_optimized_def
  by (simp add: fetched_def split: sum.splits)

lemma catch_count_Inl:
  "catch_count (Inl err, st) = (Inr (), st\<lparr>errors := errors st + 1\<rparr>)"
  by (simp add: catch_count_def)

lemma catch_count_Inr: "catch_count (Inr u, st) = (Inr u, st)"
  by (simp add: catch_count_def)

lemma fst_catch_count: "fst (catch_count r) = Inr ()"
  by (cases r; cases "fst r") (auto simp: catch_count_def)

lemma direct_body_counters:
  assumes "processImageDirect_body e key st = (r, st')"
  shows "total' st' = total' st \<and> skipped st' = skipped st \<and> errors st' = errors st \<and>
         processed st' = (if isl r then processed st else processed st + 1)"
  using assms
  by (auto simp: processImageDirect_body_def Let_def split: sum.splits option.splits)

lemma direct_body_independent:
  "fst (processImageDirect_body e key st) = fst (processImageDirect_body e key st0)"
  by (auto simp: processImageDirect_body_def Let_def split: sum.splits option.splits)

lemma lambda_body_counters:
  assumes "processImageViaLambda_body e key st = (r, st')"
  shows "total' st' = total' st \<and> skipped st' = skipped st \<and> errors st' = errors st \<and>
         processed st' = (if isl r then processed st else processed st + 1)"
  using assms
  by (auto simp: processImageViaLambda_body_def split: sum.splits)

lemma lambda_body_independent:
  "fst (processImageViaLambda_body e key st) = fst (processImageViaLambda_body e key st0)"
  by (auto simp: processImageViaLambda_body_def split: sum.splits)

lemma caught_counters:
  assumes body: "\<And>r st'. body = (r, st') \<Longrightarrow>
      total' st' = total' st \<and> skipped st' = skipped st \<and> errors st' = errors st \<and>
      processed st' = (if isl r then processed st else processed st + 1)"
  shows "fst (catch_count body) = Inr () \<and>
         total' (snd (catch_count body)) = total' st \<and>
         skipped (snd (catch_count body)) = skipped st \<and>
         errors (snd (catch_count body)) = (if isl (fst body) then errors st + 1 else errors st) \<and>
         processed (snd (catch_count body)) =
           (if isl (fst body) then processed st else processed st + 1)"
proof (cases body)
  case (Pair r st')
  with body [of r st'] show ?thesis
    by (cases r) (auto simp: catch_count_def)
qed


lemma processing_raises_direct:
  "processing_raises e False key = isl (fst (processImageDirect_body e key st))"
  using direct_body_independent [of e key st no_stats]
  by (simp add: processing_raises_def)

lemma processing_raises_lambda:
  "processing_raises e True key = isl (fst (processImageViaLambda_body e key st))"
  using lambda_body_independent [of e key st no_stats]
  by (simp add: processing_raises_def)

lemma process_counters:
  "fst (if ul then processImageViaLambda e key st else processImageDirect e key st) = Inr () \<and>
   total' (snd (if ul then processImageViaLambda e key st else processImageDirect e key st)) =
     total' st \<and>
   skipped (snd (if ul then processImageViaLambda e key st else processImageDirect e key st)) =
     skipped st \<and>
   errors (snd (if ul then processImageViaLambda e key st else processImageDirect e key st)) =
     (if processing_raises e ul key then errors st + 1 else errors st) \<and>
   processed (snd (if ul then processImageViaLambda e key st else processImageDirect e key st)) =
     (if processing_raises e ul key then processed st else processed st + 1)"
proof (cases ul)
  case True
  have "fst (catch_count (processImageViaLambda_body e key st)) = Inr () \<and>
        total' (snd (catch_count (processImageViaLambda_body e key st))) = total' st \<and>
        skipped (snd (catch_count (processImageViaLambda_body e key st))) = skipped st \<and>
        errors (snd (catch_count (processImageViaLambda_body e key st))) =
          (if isl (fst (processImageViaLambda_body e key st)) then errors st + 1 else errors st) \<and>
        processed (snd (catch_count (processImageViaLambda_body e key st))) =
          (if isl (fst (processImageViaLambda_body e key st)) then processed st
           else processed st + 1)"
    by (rule caught_counters) (rule lambda_body_counters)
  then show ?thesis
    unfolding processing_raises_lambda [of e key st, symmetric]
      processImageViaLambda_def [symmetric]
    using True by simp
next
  case False
  have "fst (catch_count (processImageDirect_body e key st)) = Inr () \<and>
        total' (snd (catch_count (processImageDirect_body e key st))) = total' st \<and>
        skipped (snd (catch_count (processImageDirect_body e key st))) = skipped st \<and>
        errors (snd (catch_count (processImageDirect_body e key st))) =
          (if isl (fst (processImageDirect_body e key st)) then errors st + 1 else errors st) \<and>
        processed (snd (catch_count (processImageDirect_body e key st))) =
          (if isl (fst (processImageDirect_body e key st)) then processed st
           else processed st + 1)"
    by (rule caught_counters) (rule direct_body_counters)
  then show ?thesis
    unfolding processing_raises_direct [of e key st, symmetric]
      processImageDirect_def [symmetric]
    using False by simp
qed

lemma batch_worker_skip:
  "skips e se key \<Longrightarrow>
   batch_worker e se ul key st = (Inr (), st\<lparr>skipped := skipped st + 1\<rparr>)"
  by (simp add: batch_worker_def skips_def optimizedVersionExists_eq)

lemma batch_worker_process:
  "\<not> skips e se key \<Longrightarrow>
   batch_worker e se ul key st =
     (if ul then processImageViaLambda e key st else processImageDirect e key st)"
  by (auto simp: batch_worker_def skips_def optimizedVersionExists_eq)

lemma batch_worker_counters:
  "fst (batch_worker e se ul key st) = Inr () \<and>
   total' (snd (batch_worker e se ul key st)) = total' st \<and>
   skipped (snd (batch_worker e se ul key st)) =
     (if skips e se key then skipped st + 1 else skipped st) \<and>
   errors (snd (batch_worker e se ul key st)) =
     (if \<not> skips e se key \<and> processing_raises e ul key then errors st + 1 else errors st) \<and>
   processed (snd (batch_worker e se ul key st)) =
     (if \<not> skips e se key \<and> \<not> processing_raises e ul key then processed st + 1
      else processed st)"
proof (cases "skips e se key")
  case True
  then show ?thesis by (simp add: batch_worker_skip)
next
  case False
  then have eq: "batch_worker e se ul key st =
      (if ul then processImageViaLambda e key st else processImageDirect e key st)"
    by (rule batch_worker_process)
  show ?thesis
    unfolding eq using process_counters [of ul e key st] False by simp
qed

lemma run_batch_eq: "run_batch e se ul keys st = Inr (run_workers e se ul keys st)"
proof (induction keys arbitrary: st)
  case Nil
  show ?case by (simp add: run_workers_def)
next
  case (Cons key keys)
  obtain r st' where w: "batch_worker e se ul key st = (r, st')"
    by (cases "batch_worker e se ul key st")
  with batch_worker_counters [of e se ul key st] have "r = Inr ()" by simp
  with w Cons.IH [of st'] show ?case by (simp add: run_workers_def)
qed

lemma run_workers_Nil: "run_workers e se ul [] st = st"
  by (simp add: run_workers_def)

lemma run_workers_Cons:
  "run_workers e se ul (key # keys) st =
     run_workers e se ul keys (snd (batch_worker e se ul key st))"
  by (simp add: run_workers_def)

lemma run_workers_append:
  "run_workers e se ul (xs @ ys) st = run_workers e se ul ys (run_workers e se ul xs st)"
  by (simp add: run_workers_def)

lemma run_workers_counters:
  "total' (run_workers e se ul keys st) = total' st \<and>
   skipped (run_workers e se ul keys st) = skipped st + length (filter (skips e se) keys) \<and>
   errors (run_workers e se ul keys st) =
     errors st + length (filter (\<lambda>k. \<not> skips e se k \<and> processing_raises e ul k) keys) \<and>
   processed (run_workers e se ul keys st) =
     processed st + length (filter (\<lambda>k. \<not> skips e se k \<and> \<not> processing_raises e ul k) keys)"
proof (induction keys arbitrary: st)
  case Nil
  show ?case by (simp add: run_workers_Nil)
next
  case (Cons key keys)
  show ?case
    using Cons.IH [of "snd (batch_worker e se ul key st)"]
      batch_worker_counters [of e se ul key st]
    by (simp add: run_workers_Cons)
qed

lemma slice_batch:
  assumes "0 \<le> i" and "i < int (length xs)" and "1 \<le> B"
  shows "slice xs i (i + B) @ drop (nat (i + B)) xs = drop (nat i) xs"
proof (cases "i + B \<le> int (length xs)")
  case True
  with assms have "slice xs i (i + B) = take (nat B) (drop (nat i) xs)"
    by (simp add: slice_def Let_def min_def)
  moreover from assms have "drop (nat (i + B)) xs = drop (nat B) (drop (nat i) xs)"
    by (simp add: nat_add_distrib add.commute)
  ultimately show ?thesis by (simp only: append_take_drop_id)
next
  case False
  with assms have "slice xs i (i + B) = drop (nat i) xs"
    by (simp add: slice_def Let_def min_def)
  moreover from False have "drop (nat (i + B)) xs = []" by simp
  ultimately show ?thesis by simp
qed

lemma delays_from_step:
  assumes "0 \<le> i" and "i < L" and "1 \<le> B"
  shows "delays_from L B d i =
         (if i + B < L \<and> 0 < d then Suc (delays_from L B d (i + B)) else delays_from L B d (i + B))"
proof (cases "0 < d")
  case False
  then show ?thesis by (simp add: delays_from_def)
next
  case d: True
  show ?thesis
  proof (cases "i + B < L")
    case True
    have "(L - i - 1) div B = ((L - (i + B) - 1) + B) div B"
      by (rule arg_cong [where f = "\<lambda>v. v div B"]) simp
    also from assms have "\<dots> = (L - (i + B) - 1) div B + 1"
      by (simp only: div_add_self2)
    finally have "(L - i - 1) div B = (L - (i + B) - 1) div B + 1" .
    moreover from True assms have "0 \<le> (L - (i + B) - 1) div B"
      by (simp add: pos_imp_zdiv_nonneg_iff)
    ultimately show ?thesis using True d assms by (simp add: delays_from_def nat_add_distrib)
  next
    case False
    with assms have "(L - i - 1) div B = 0" by simp
    with False d assms show ?thesis by (simp add: delays_from_def)
  qed
qed


lemma batch_loop_eq:
  assumes B: "1 \<le> B" and i: "0 \<le> i"
  shows "batch_loop e se ul B d imgs i st =
         Some (Inr \<lparr>stats = run_workers e se ul (drop (nat i) imgs) (stats st),
                    timeouts = timeouts st @
                      replicate (delays_from (int (length imgs)) B d i) d\<rparr>)"
  using i
proof (induction "nat (int (length imgs) - i)" arbitrary: i st rule: less_induct)
  case less
  let ?L = "int (length imgs)"
  show ?case
  proof (cases "i < ?L")
    case False
    with less.prems have "drop (nat i) imgs = []" by simp
    with False show ?thesis
      by (subst batch_loop.simps) (simp add: run_workers_Nil delays_from_def)
  next
    case True
    define st' where "st' =
      \<lparr>stats = run_workers e se ul (slice imgs i (i + B)) (stats st),
       timeouts = (if i + B < ?L \<and> d > 0 then timeouts st @ [d] else timeouts st)\<rparr>"
    have unfold: "batch_loop e se ul B d imgs i st = batch_loop e se ul B d imgs (i + B) st'"
      using True by (subst batch_loop.simps) (simp add: run_batch_eq st'_def)
    have "nat (?L - (i + B)) < nat (?L - i)" using True B by simp
    moreover have "0 \<le> i + B" using less.prems B by simp
    ultimately have IH: "batch_loop e se ul B d imgs (i + B) st' =
        Some (Inr \<lparr>stats = run_workers e se ul (drop (nat (i + B)) imgs) (stats st'),
                   timeouts = timeouts st' @ replicate (delays_from ?L B d (i + B)) d\<rparr>)"
      by (rule less.hyps)
    have "run_workers e se ul (drop (nat (i + B)) imgs) (stats st') =
          run_workers e se ul (slice imgs i (i + B) @ drop (nat (i + B)) imgs) (stats st)"
      by (simp add: run_workers_append st'_def)
    also have "\<dots> = run_workers e se ul (drop (nat i) imgs) (stats st)"
      using less.prems True B by (simp only: slice_batch)
    finally have stats_eq: "run_workers e se ul (drop (nat (i + B)) imgs) (stats st') =
          run_workers e se ul (drop (nat i) imgs) (stats st)" .
    have delays_eq: "timeouts st' @ replicate (delays_from ?L B d (i + B)) d =
          timeouts st @ replicate (delays_from ?L B d i) d"
      using delays_from_step [OF less.prems True B, of d] by (simp add: st'_def)
    show ?thesis
      by (simp only: unfold IH stats_eq delays_eq)
  qed
qed



lemma processExistingImages_eq:
  assumes "listAllImages e (or_default (prefix opts) []) = Some (Inr allImages)"
    and "1 \<le> or_default (batchSize opts) 10"
  shows "processExistingImages e opts =
         Some (Inr \<lparr>stats =
                     run_workers e (or_default (skipExisting opts) True)
                       (or_default (useLambda opts) False) allImages
                       (no_stats\<lparr>total' := length allImages\<rparr>),
                    timeouts =
                      replicate (delays_from (int (length allImages))
                                   (or_default (batchSize opts) 10)
                                   (or_default (delayBetweenBatches opts) 1000) 0)
                        (or_default (delayBetweenBatches opts) 1000)\<rparr>)"
proof -
  have "batch_loop e (or_default (skipExisting opts) True) (or_default (useLambda opts) False)
          (or_default (batchSize opts) 10) (or_default (delayBetweenBatches opts) 1000)
          allImages 0 \<lparr>stats = no_stats\<lparr>total' := length allImages\<rparr>, timeouts = []\<rparr> =
        Some (Inr \<lparr>stats =
                     run_workers e (or_default (skipExisting opts) True)
                       (or_default (useLambda opts) False) (drop (nat 0) allImages)
                       (stats \<lparr>stats = no_stats\<lparr>total' := length allImages\<rparr>, timeouts = []\<rparr>),
                    timeouts = timeouts \<lparr>stats = no_stats\<lparr>total' := length allImages\<rparr>,
                                         timeouts = []\<rparr> @
                      replicate (delays_from (int (length allImages))
                                   (or_default (batchSize opts) 10)
                                   (or_default (delayBetweenBatches opts) 1000) 0)
                        (or_default (delayBetweenBatches opts) 1000)\<rparr>)"
    by (rule batch_loop_eq [OF assms(2)]) simp
  then show ?thesis
    using assms(1) by (simp add: processExistingImages_def no_stats_def)
qed



text \<open>
  With a batch size of 0 the index never moves: from an index inside the listing the
  loop has no result.
\<close>

lemma batch_loop_never_ends:
  assumes "batch_loop e se ul B d imgs i st = Some y"
  shows "\<not> (B = 0 \<and> i < int (length imgs))"
  using assms
proof (induction rule: batch_loop.raw_induct[rotated 1, consumes 1])
  case (1 batch_loop' e se ul B d imgs i st y)
  show ?case
  proof
    assume h: "B = 0 \<and> i < int (length imgs)"
    with 1(2) obtain st' where "batch_loop' e se ul B d imgs i st' = Some y"
      by (auto simp: run_batch_eq split: if_splits)
    then have "\<not> (B = 0 \<and> i < int (length imgs))" by (rule 1(1))
    with h show False by simp
  qed
qed

lemma length_filter_three:
  "length (filter P xs) + length (filter (\<lambda>k. \<not> P k \<and> Q k) xs) +
   length (filter (\<lambda>k. \<not> P k \<and> \<not> Q k) xs) = length xs"
  by (induction xs) auto

lemma run_counts:
  assumes "listAllImages e (or_default (prefix opts) []) = Some (Inr allImages)"
    and "1 \<le> or_default (batchSize opts) 10"
  shows "\<exists>st. processExistingImages e opts = Some (Inr st) \<and>
           total' (stats st) = length allImages \<and>
           skipped (stats st) =
             length (filter (skips e (or_default (skipExisting opts) True)) allImages) \<and>
           errors (stats st) =
             length (filter (\<lambda>k. \<not> skips e (or_default (skipExisting opts) True) k \<and>
                          processing_raises e (or_default (useLambda opts) False) k) allImages) \<and>
           processed (stats st) =
             length (filter (\<lambda>k. \<not> skips e (or_default (skipExisting opts) True) k \<and>
                          \<not> processing_raises e (or_default (useLambda opts) False) k) allImages) \<and>
           timeouts st =
             replicate (delays_from (int (length allImages)) (or_default (batchSize opts) 10)
                          (or_default (delayBetweenBatches opts) 1000) 0)
               (or_default (delayBetweenBatches opts) 1000)"
  using processExistingImages_eq [OF assms]
    run_workers_counters [of e "or_default (skipExisting opts) True"
      "or_default (useLambda opts) False" allImages "no_stats\<lparr>total' := length allImages\<rparr>"]
  by (simp add: no_stats_def)

section \<open>The bulk driver: the properties\<close>






text \<open>
  C6. The two processing functions never throw: what their body throws is caught and
  adds one to the error counter. No worker of a batch throws. For a positive batch
  size the run over a listing ends, whatever fails: its error counter is the number of
  items that were not skipped and whose processing raised, and every listed item is
  counted once, as processed, skipped or an error.
\<close>

theorem item_failures_are_contained:
  assumes "listAllImages e (or_default (prefix opts) []) = Some (Inr allImages)"
    and "1 \<le> or_default (batchSize opts) 10"
  shows "(\<forall>key st. fst (processImageDirect e key st) = Inr () \<and>
                   fst (processImageViaLambda e key st) = Inr ()) \<and>
         (\<forall>key st. isl (fst (processImageDirect_body e key st)) \<longrightarrow>
            errors (snd (processImageDirect e key st)) = errors st + 1 \<and>
            processed (snd (processImageDirect e key st)) = processed st) \<and>
         (\<forall>key st. isl (fst (processImageViaLambda_body e key st)) \<longrightarrow>
            errors (snd (processImageViaLambda e key st)) = errors st + 1 \<and>
            processed (snd (processImageViaLambda e key st)) = processed st) \<and>
         (\<forall>key sk ul st. fst (batch_worker e sk ul key st) = Inr ()) \<and>
         (\<exists>st. processExistingImages e opts = Some (Inr st) \<and>
               total' (stats st) = length allImages \<and>
               errors (stats st) =
                 length (filter (\<lambda>k. \<not> skips e (or_default (skipExisting opts) True) k \<and>
                              processing_raises e (or_default (useLambda opts) False) k)
                           allImages) \<and>
               processed (stats st) + skipped (stats st) + errors (stats st) =
                 length allImages)"
proof -
  have direct: "fst (processImageDirect e key st) = Inr () \<and>
      (isl (fst (processImageDirect_body e key st)) \<longrightarrow>
         errors (snd (processImageDirect e key st)) = errors st + 1 \<and>
         processed (snd (processImageDirect e key st)) = processed st)" for key st
    using process_counters [of False e key st]
    by (simp add: processing_raises_direct [of e key st])
  have lambda: "fst (processImageViaLambda e key st) = Inr () \<and>
      (isl (fst (processImageViaLambda_body e key st)) \<longrightarrow>
         errors (snd (processImageViaLambda e key st)) = errors st + 1 \<and>
         processed (snd (processImageViaLambda e key st)) = processed st)" for key st
    using process_counters [of True e key st]
    by (simp add: processing_raises_lambda [of e key st])
  have worker: "fst (batch_worker e sk ul key st) = Inr ()" for key sk ul st
    using batch_worker_counters [of e sk ul key st] by simp
  from run_counts [OF assms] obtain st where
    run: "processExistingImages e opts = Some (Inr st)" and
    tot: "total' (stats st) = length allImages" and
    s: "skipped (stats st) =
       length (filter (skips e (or_default (skipExisting opts) True)) allImages)" and
    er: "errors (stats st) =
       length (filter (\<lambda>k. \<not> skips e (or_default (skipExisting opts) True) k \<and>
                 processing_raises e (or_default (useLambda opts) False) k) allImages)" and
    pr: "processed (stats st) =
       length (filter (\<lambda>k. \<not> skips e (or_default (skipExisting opts) True) k \<and>
                 \<not> processing_raises e (or_default (useLambda opts) False) k) allImages)"
    by blast
  have "processed (stats st) + skipped (stats st) + errors (stats st) = length allImages"
    using length_filter_three [of "skips e (or_default (skipExisting opts) True)" allImages
        "processing_raises e (or_default (useLambda opts) False)"]
    by (simp add: s er pr)
  with run tot er have "\<exists>st. processExistingImages e opts = Some (Inr st) \<and>
               total' (stats st) = length allImages \<and>
               errors (stats st) =
                 length (filter (\<lambda>k. \<not> skips e (or_default (skipExisting opts) True) k \<and>
                              processing_raises e (or_default (useLambda opts) False) k)
                           allImages) \<and>
               processed (stats st) + skipped (stats st) + errors (stats st) =
                 length allImages"
    by blast
  with direct lambda worker show ?thesis by blast
qed

theorem item_failures_are_contained_witness:
  "listAllImages example_env (or_default (prefix example_options) []) =
     Some (Inr [''a.jpg'', ''b.jpg'', ''missing.png'']) \<and>
   isl (fst (processImageDirect_body example_env ''missing.png'' no_stats)) \<and>
   fst (processImageDirect example_env ''missing.png'' no_stats) = Inr () \<and>
   errors (snd (processImageDirect example_env ''missing.png'' no_stats)) = 1 \<and>
   (\<exists>st. processExistingImages example_env example_options = Some (Inr st) \<and>
         total' (stats st) = 3 \<and> errors (stats st) = 1 \<and>
         processed (stats st) + skipped (stats st) + errors (stats st) = 3)"
proof -
  have listing: "listAllImages example_env (or_default (prefix example_options) []) =
      Some (Inr [''a.jpg'', ''b.jpg'', ''missing.png''])"
    by code_simp
  have size: "1 \<le> or_default (batchSize example_options) 10"
    by (simp add: example_options_def or_default_def)
  have raised: "filter (\<lambda>k. \<not> skips example_env (or_default (skipExisting example_options) True) k \<and>
        processing_raises example_env (or_default (useLambda example_options) False) k)
      [''a.jpg'', ''b.jpg'', ''missing.png''] = [''missing.png'']"
    by code_simp
  have fails: "isl (fst (processImageDirect_body example_env ''missing.png'' no_stats))"
    by code_simp
  have zero: "errors no_stats = 0" by (simp add: no_stats_def)
  show ?thesis
    using item_failures_are_contained [OF listing size] listing raised fails zero
    by (auto simp: eval_nat_numeral)
qed

end
